theory Spec2Isabelle
  imports Main "HOL-Library.Word"
begin

unbundle bit_operations_syntax

section \<open>The ring buffer of main.c\<close>

text \<open>
  A shallow embedding of \<^verbatim>\<open>main.c\<close>: the CRC-8 routine, the ring buffer primitives
  and the two message loggers.

  Conventions of the embedding.
  \<^item> A C \<^verbatim>\<open>char\<close> and a \<^verbatim>\<open>uint8_t\<close> are both an 8-bit word; the casts between them
    keep the bit pattern.
  \<^item> The \<^verbatim>\<open>int\<close> fields of the struct are HOL integers. C's \<^verbatim>\<open>%\<close> truncates towards
    zero (the result has the sign of the dividend), which is \<open>c_mod\<close> below, not HOL's
    \<open>mod\<close>.
  \<^item> Undefined behaviour of the C program (division by zero, signed overflow, an access
    outside the allocated block) is the result \<open>None\<close>; a defined execution returns
    \<open>Some\<close> of its result.
  \<^item> A function that mutates \<^verbatim>\<open>*rb\<close> returns the updated struct next to its C return
    value; a C truth value (\<^verbatim>\<open>int\<close> 0 or 1) is a \<open>bool\<close>.
\<close>

type_synonym byte = "8 word"

subsection \<open>C arithmetic\<close>

definition INT_MAX :: int where
  "INT_MAX = 2147483647"

text \<open>The remainder of C99 integer division: \<^verbatim>\<open>a % b\<close> for \<open>b \<noteq> 0\<close>.\<close>

definition c_mod :: "int \<Rightarrow> int \<Rightarrow> int" where
  "c_mod a b = sgn a * (\<bar>a\<bar> mod \<bar>b\<bar>)"

subsection \<open>C strings\<close>

text \<open>
  A \<^verbatim>\<open>const char *msg\<close> is modelled by the bytes stored from the pointer on; the block is
  followed by the terminating NUL. \<^verbatim>\<open>strlen\<close> counts the bytes before the first NUL, and
  \<open>c_string\<close> is the text of the string: those bytes.
\<close>

definition c_string :: "byte list \<Rightarrow> byte list" where
  "c_string msg = takeWhile (\<lambda>c. c \<noteq> 0) msg"

definition strlen :: "byte list \<Rightarrow> nat" where
  "strlen msg = length (c_string msg)"

subsection \<open>crc8\<close>

text \<open>
  The body of the inner loop:
  \<^verbatim>\<open>if (crc & 0x80) crc = (crc << 1) ^ 0x07; else crc <<= 1;\<close>
  The shift is done in \<^verbatim>\<open>int\<close> and the assignment to the \<^verbatim>\<open>uint8_t\<close> keeps the low 8
  bits; on an 8-bit word \<open>push_bit\<close> drops the high bit at once, and the XOR with 7 only
  touches the low bits.
\<close>

definition crc8_shift :: "byte \<Rightarrow> byte" where
  "crc8_shift crc = (if crc AND 0x80 \<noteq> 0 then push_bit 1 crc XOR 0x07 else push_bit 1 crc)"

text \<open>The inner loop \<^verbatim>\<open>for (int j = 0; j < 8; j++)\<close>, from the value \<open>j\<close> of its counter.\<close>

function crc8_bits :: "nat \<Rightarrow> byte \<Rightarrow> byte" where
  "crc8_bits j crc = (if j < 8 then crc8_bits (j + 1) (crc8_shift crc) else crc)"
  by pat_completeness auto
termination
  by (relation "measure (\<lambda>(j, crc). 8 - j)") auto

text \<open>
  The outer loop \<^verbatim>\<open>for (size_t i = 0; i < len; i++)\<close>, from the value \<open>i\<close> of its counter.
  \<open>data\<close> is the block the pointer refers to; reading \<^verbatim>\<open>data[i]\<close> beyond it is undefined.
\<close>

function crc8_bytes :: "byte list \<Rightarrow> nat \<Rightarrow> nat \<Rightarrow> byte \<Rightarrow> byte option" where
  "crc8_bytes data len i crc =
     (if i < len then
        (if i < length data then crc8_bytes data len (i + 1) (crc8_bits 0 (crc XOR data ! i))
         else None)
      else Some crc)"
  by pat_completeness auto
termination
  by (relation "measure (\<lambda>(data, len, i, crc). len - i)") auto

definition crc8 :: "byte list \<Rightarrow> nat \<Rightarrow> byte option" where
  "crc8 data len = crc8_bytes data len 0 0x00"

subsection \<open>The ring buffer\<close>

text \<open>
  \<^verbatim>\<open>typedef struct ringbuffer { char *buffer; int head; int tail; int size; }\<close>.
  The field \<open>buffer\<close> is the block the pointer refers to, its length the number of bytes
  allocated (the empty list for a null pointer). The field \<^verbatim>\<open>size\<close> is named \<open>size'\<close>.
\<close>

record ringbuffer =
  buffer :: "byte list"
  head :: int
  tail :: int
  size' :: int

text \<open>
  \<^verbatim>\<open>rb_init\<close> returns nothing and checks nothing. \<open>blk\<close> is the block that
  \<^verbatim>\<open>malloc(size * sizeof(char))\<close> returned, with whatever bytes it holds.
\<close>

definition rb_init :: "byte list \<Rightarrow> int \<Rightarrow> ringbuffer" where
  "rb_init blk sz = \<lparr>buffer = blk, head = 0, tail = 0, size' = sz\<rparr>"

text \<open>\<^verbatim>\<open>return (rb->head + 1) % rb->size == rb->tail;\<close>\<close>

definition rb_is_full :: "ringbuffer \<Rightarrow> bool option" where
  "rb_is_full rb =
     (if INT_MAX < head rb + 1 then None
      else if size' rb = 0 then None
      else Some (c_mod (head rb + 1) (size' rb) = tail rb))"

text \<open>\<^verbatim>\<open>return rb->head == rb->tail;\<close>\<close>

definition rb_is_empty :: "ringbuffer \<Rightarrow> bool" where
  "rb_is_empty rb = (head rb = tail rb)"

text \<open>
  \<^verbatim>\<open>rb_push\<close>: the result is the struct after the call and the return value
  (\<open>True\<close> for 1, \<open>False\<close> for 0).
\<close>

definition rb_push :: "ringbuffer \<Rightarrow> byte \<Rightarrow> (ringbuffer \<times> bool) option" where
  "rb_push rb data =
     (case rb_is_full rb of
        None \<Rightarrow> None
      | Some True \<Rightarrow> Some (rb, False)
      | Some False \<Rightarrow>
          if 0 \<le> head rb \<and> nat (head rb) < length (buffer rb) then
            Some (rb\<lparr>buffer := (buffer rb)[nat (head rb) := data],
                     head := c_mod (head rb + 1) (size' rb)\<rparr>, True)
          else None)"

text \<open>
  \<^verbatim>\<open>rb_pop\<close>: \<open>data\<close> is the value of \<^verbatim>\<open>*data\<close> before the call; the result is the
  struct and \<^verbatim>\<open>*data\<close> after the call, and the return value.
\<close>

definition rb_pop :: "ringbuffer \<Rightarrow> byte \<Rightarrow> (ringbuffer \<times> byte \<times> bool) option" where
  "rb_pop rb data =
     (if rb_is_empty rb then Some (rb, data, False)
      else if 0 \<le> tail rb \<and> nat (tail rb) < length (buffer rb) then
        (if INT_MAX < tail rb + 1 then None
         else if size' rb = 0 then None
         else Some (rb\<lparr>tail := c_mod (tail rb + 1) (size' rb)\<rparr>, buffer rb ! nat (tail rb), True))
      else None)"

subsection \<open>The message loggers\<close>

text \<open>
  The loop of \<^verbatim>\<open>rb_log_message\<close>, from the value \<open>i\<close> of its counter:
  \<^verbatim>\<open>for (size_t i = 0; i < strlen(msg); i++) { if (!rb_push(rb, msg[i])) break; }\<close>
  The result is the struct and the counter when the loop is left.
\<close>

function rb_log_message_loop :: "ringbuffer \<Rightarrow> byte list \<Rightarrow> nat \<Rightarrow> (ringbuffer \<times> nat) option" where
  "rb_log_message_loop rb msg i =
     (if i < strlen msg then
        (case rb_push rb (msg ! i) of
           None \<Rightarrow> None
         | Some (rb', ok) \<Rightarrow> if \<not> ok then Some (rb', i) else rb_log_message_loop rb' msg (i + 1))
      else Some (rb, i))"
  by pat_completeness auto
termination
  by (relation "measure (\<lambda>(rb, msg, i). strlen msg - i)") auto

definition rb_log_message :: "ringbuffer \<Rightarrow> byte list \<Rightarrow> ringbuffer option" where
  "rb_log_message rb msg = map_option fst (rb_log_message_loop rb msg 0)"

text \<open>
  The loop of \<^verbatim>\<open>rb_log_message_crc\<close>, which ignores what \<^verbatim>\<open>rb_push\<close> returns:
  \<^verbatim>\<open>for (size_t i = 0; i < strlen(msg); i++) { rb_push(rb, msg[i]); }\<close>
\<close>

function rb_log_message_crc_loop :: "ringbuffer \<Rightarrow> byte list \<Rightarrow> nat \<Rightarrow> ringbuffer option" where
  "rb_log_message_crc_loop rb msg i =
     (if i < strlen msg then
        (case rb_push rb (msg ! i) of
           None \<Rightarrow> None
         | Some (rb', ok) \<Rightarrow> rb_log_message_crc_loop rb' msg (i + 1))
      else Some rb)"
  by pat_completeness auto
termination
  by (relation "measure (\<lambda>(rb, msg, i). strlen msg - i)") auto

definition rb_log_message_crc :: "ringbuffer \<Rightarrow> byte list \<Rightarrow> ringbuffer option" where
  "rb_log_message_crc rb msg =
     (case crc8 msg (strlen msg) of
        None \<Rightarrow> None
      | Some crc \<Rightarrow>
          (case rb_log_message_crc_loop rb msg 0 of
             None \<Rightarrow> None
           | Some rb' \<Rightarrow> map_option fst (rb_push rb' crc)))"

section \<open>Notions used to state the properties\<close>

subsection \<open>Valid buffers and what they hold\<close>

text \<open>
  A buffer as \<^verbatim>\<open>rb_init\<close> leaves it and \<^verbatim>\<open>rb_push\<close> and \<^verbatim>\<open>rb_pop\<close> keep it, for a
  capacity of at least 2 that is a C \<^verbatim>\<open>int\<close>: the block has \<^verbatim>\<open>size\<close> bytes and both
  indices are inside it.
\<close>

definition rb_inv :: "ringbuffer \<Rightarrow> bool" where
  "rb_inv rb \<longleftrightarrow> 2 \<le> size' rb \<and> size' rb \<le> INT_MAX \<and> length (buffer rb) = nat (size' rb)
     \<and> 0 \<le> head rb \<and> head rb < size' rb \<and> 0 \<le> tail rb \<and> tail rb < size' rb"

text \<open>The number of bytes between \<open>tail\<close> and \<open>head\<close>, going round the block.\<close>

definition rb_count :: "ringbuffer \<Rightarrow> nat" where
  "rb_count rb = nat ((head rb - tail rb) mod size' rb)"

text \<open>The number of bytes that can still be pushed: one slot always stays unused.\<close>

definition rb_free :: "ringbuffer \<Rightarrow> nat" where
  "rb_free rb = nat (size' rb) - 1 - rb_count rb"

text \<open>The resident bytes, oldest first: the slots \<open>tail\<close>, \<open>tail + 1\<close>, ... up to \<open>head\<close>.\<close>

definition rb_contents :: "ringbuffer \<Rightarrow> byte list" where
  "rb_contents rb = map (\<lambda>k. buffer rb ! nat ((tail rb + int k) mod size' rb)) [0..<rb_count rb]"

text \<open>The struct after a push that was accepted, and after a pop that returned a byte.\<close>

definition push_state :: "ringbuffer \<Rightarrow> byte \<Rightarrow> ringbuffer" where
  "push_state rb b =
     rb\<lparr>buffer := (buffer rb)[nat (head rb) := b], head := (head rb + 1) mod size' rb\<rparr>"

definition pop_state :: "ringbuffer \<Rightarrow> ringbuffer" where
  "pop_state rb = rb\<lparr>tail := (tail rb + 1) mod size' rb\<rparr>"

subsection \<open>Sequences of calls\<close>

text \<open>
  A caller's sequence of \<^verbatim>\<open>rb_push\<close> and \<^verbatim>\<open>rb_pop\<close> calls. A run keeps, next to the
  struct, the bytes whose push returned 1 and the bytes that pops returning 1 stored in
  \<^verbatim>\<open>*data\<close>, both in call order. A pop is called with \<^verbatim>\<open>*data\<close> holding 0.
\<close>

datatype op = Push byte | Pop

type_synonym run_state = "ringbuffer \<times> byte list \<times> byte list"

fun step :: "run_state \<Rightarrow> op \<Rightarrow> run_state option" where
  "step (rb, ins, outs) (Push b) =
     (case rb_push rb b of
        None \<Rightarrow> None
      | Some (rb', ok) \<Rightarrow> Some (rb', if ok then ins @ [b] else ins, outs))"
| "step (rb, ins, outs) Pop =
     (case rb_pop rb 0 of
        None \<Rightarrow> None
      | Some (rb', d, ok) \<Rightarrow> Some (rb', ins, if ok then outs @ [d] else outs))"

fun run :: "run_state \<Rightarrow> op list \<Rightarrow> run_state option" where
  "run s [] = Some s"
| "run s (x # xs) = (case step s x of None \<Rightarrow> None | Some s' \<Rightarrow> run s' xs)"

text \<open>What a run maintains: a valid buffer that holds the accepted bytes not yet popped.\<close>

fun run_inv :: "run_state \<Rightarrow> bool" where
  "run_inv (rb, ins, outs) \<longleftrightarrow> rb_inv rb \<and> ins = outs @ rb_contents rb"

subsection \<open>The checksum as the specification words it\<close>

text \<open>
  On natural numbers, with the register starting at 0x00. For each input byte the register
  is XORed with the byte. Then, 8 times: if the high bit (bit 7) of the register is set,
  the register becomes the register shifted left by one, XORed with 0x07; otherwise it
  becomes the register shifted left by one; and the register is kept to 8 bits. The
  register after the last byte is the checksum: no reflection, no final XOR.
\<close>

definition spec_shift :: "nat \<Rightarrow> nat" where
  "spec_shift reg = take_bit 8 (if bit reg 7 then push_bit 1 reg XOR 0x07 else push_bit 1 reg)"

definition spec_byte :: "nat \<Rightarrow> nat \<Rightarrow> nat" where
  "spec_byte reg b = (spec_shift ^^ 8) (reg XOR b)"

definition spec_checksum :: "nat list \<Rightarrow> nat" where
  "spec_checksum data = foldl spec_byte 0 data"

section \<open>Arithmetic of the indices\<close>

lemma c_mod_nonneg: "0 \<le> a \<Longrightarrow> 0 < b \<Longrightarrow> c_mod a b = a mod b"
  by (simp add: c_mod_def sgn_if)

lemma succ_mod_cases:
  fixes h n :: int
  assumes "0 \<le> h" "h < n"
  shows "(h + 1) mod n = (if h + 1 = n then 0 else h + 1)"
  using assms by simp

lemma diff_mod_cases:
  fixes h t n :: int
  assumes "0 \<le> h" "h < n" "0 \<le> t" "t < n"
  shows "(h - t) mod n = (if t \<le> h then h - t else h - t + n)"
proof (cases "t \<le> h")
  case True
  with assms show ?thesis by simp
next
  case False
  with assms have "(h - t + n) mod n = h - t + n"
    by (intro mod_pos_pos_trivial) auto
  moreover have "(h - t + n) mod n = (h - t) mod n" by simp
  ultimately show ?thesis using False by simp
qed

lemma add_mod_cases:
  fixes t k n :: int
  assumes "0 \<le> t" "t < n" "0 \<le> k" "k < n"
  shows "(t + k) mod n = (if t + k < n then t + k else t + k - n)"
proof (cases "t + k < n")
  case True
  with assms show ?thesis by simp
next
  case False
  with assms have "(t + k - n) mod n = t + k - n"
    by (intro mod_pos_pos_trivial) auto
  moreover have "(t + k - n) mod n = (t + k) mod n" by simp
  ultimately show ?thesis using False by simp
qed

section \<open>Push and pop on a valid buffer\<close>

lemma inv_is_full: "rb_inv rb \<Longrightarrow> rb_is_full rb = Some ((head rb + 1) mod size' rb = tail rb)"
  by (simp add: rb_inv_def rb_is_full_def c_mod_nonneg)

lemma count_less: "rb_inv rb \<Longrightarrow> int (rb_count rb) < size' rb"
  by (simp add: rb_inv_def rb_count_def)

lemma full_iff_count:
  "rb_inv rb \<Longrightarrow> (head rb + 1) mod size' rb = tail rb \<longleftrightarrow> int (rb_count rb) = size' rb - 1"
  by (auto simp: rb_inv_def rb_count_def succ_mod_cases diff_mod_cases split: if_splits)

lemma empty_iff_count: "rb_inv rb \<Longrightarrow> head rb = tail rb \<longleftrightarrow> rb_count rb = 0"
  by (auto simp: rb_inv_def rb_count_def diff_mod_cases split: if_splits)

lemma push_full:
  "rb_inv rb \<Longrightarrow> (head rb + 1) mod size' rb = tail rb \<Longrightarrow> rb_push rb b = Some (rb, False)"
  by (simp add: rb_push_def inv_is_full)

lemma push_not_full:
  "rb_inv rb \<Longrightarrow> (head rb + 1) mod size' rb \<noteq> tail rb \<Longrightarrow>
   rb_push rb b = Some (push_state rb b, True)"
  by (simp add: rb_push_def inv_is_full push_state_def) (simp add: rb_inv_def c_mod_nonneg)

lemma pop_empty: "head rb = tail rb \<Longrightarrow> rb_pop rb d = Some (rb, d, False)"
  by (simp add: rb_pop_def rb_is_empty_def)

lemma pop_not_empty:
  "rb_inv rb \<Longrightarrow> head rb \<noteq> tail rb \<Longrightarrow>
   rb_pop rb d = Some (pop_state rb, buffer rb ! nat (tail rb), True)"
  by (simp add: rb_pop_def rb_is_empty_def rb_inv_def c_mod_nonneg pop_state_def)

lemma index_at_count: "rb_inv rb \<Longrightarrow> (tail rb + int (rb_count rb)) mod size' rb = head rb"
  by (auto simp: rb_inv_def rb_count_def diff_mod_cases)

lemma index_below_count:
  "rb_inv rb \<Longrightarrow> k < rb_count rb \<Longrightarrow> (tail rb + int k) mod size' rb \<noteq> head rb"
  by (auto simp: rb_inv_def rb_count_def diff_mod_cases add_mod_cases split: if_splits)

lemma index_range:
  "rb_inv rb \<Longrightarrow> 0 \<le> (tail rb + int k) mod size' rb \<and> (tail rb + int k) mod size' rb < size' rb"
  by (simp add: rb_inv_def)

lemma inv_push_state: "rb_inv rb \<Longrightarrow> rb_inv (push_state rb b)"
  by (simp add: rb_inv_def push_state_def)

lemma count_push_state:
  "rb_inv rb \<Longrightarrow> (head rb + 1) mod size' rb \<noteq> tail rb \<Longrightarrow>
   rb_count (push_state rb b) = Suc (rb_count rb)"
  by (auto simp: rb_inv_def rb_count_def push_state_def succ_mod_cases diff_mod_cases
      split: if_splits)

lemma contents_push_state:
  assumes "rb_inv rb" and "(head rb + 1) mod size' rb \<noteq> tail rb"
  shows "rb_contents (push_state rb b) = rb_contents rb @ [b]"
proof -
  have old: "(buffer rb)[nat (head rb) := b] ! nat ((tail rb + int k) mod size' rb)
      = buffer rb ! nat ((tail rb + int k) mod size' rb)" if "k < rb_count rb" for k
  proof -
    from index_below_count [OF assms(1) that] index_range [OF assms(1), of k] assms(1)
    have "nat ((tail rb + int k) mod size' rb) \<noteq> nat (head rb)"
      by (simp add: rb_inv_def nat_eq_iff)
    then show ?thesis by simp
  qed
  have new: "(buffer rb)[nat (head rb) := b] ! nat ((tail rb + int (rb_count rb)) mod size' rb) = b"
    using assms(1) by (simp add: index_at_count) (simp add: rb_inv_def)
  show ?thesis
    unfolding rb_contents_def count_push_state [OF assms]
    by (simp add: push_state_def old new)
qed

lemma inv_pop_state: "rb_inv rb \<Longrightarrow> rb_inv (pop_state rb)"
  by (simp add: rb_inv_def pop_state_def)

lemma count_pop_state:
  "rb_inv rb \<Longrightarrow> head rb \<noteq> tail rb \<Longrightarrow> Suc (rb_count (pop_state rb)) = rb_count rb"
  by (auto simp: rb_inv_def rb_count_def pop_state_def succ_mod_cases diff_mod_cases
      split: if_splits)

lemma contents_pop_state:
  assumes "rb_inv rb" and "head rb \<noteq> tail rb"
  shows "buffer rb ! nat (tail rb) # rb_contents (pop_state rb) = rb_contents rb"
proof -
  have shift: "((tail rb + 1) mod size' rb + int k) mod size' rb
      = (tail rb + int (Suc k)) mod size' rb" for k
    by (simp add: mod_simps ac_simps)
  have "rb_contents rb
      = map (\<lambda>k. buffer rb ! nat ((tail rb + int k) mod size' rb)) [0..<Suc (rb_count (pop_state rb))]"
    by (simp only: rb_contents_def count_pop_state [OF assms])
  also have "\<dots> = buffer rb ! nat (tail rb) # rb_contents (pop_state rb)"
    using assms(1)
    by (simp only: upt_conv_Cons zero_less_Suc list.map map_Suc_upt [symmetric] map_map o_def)
       (simp add: rb_contents_def pop_state_def shift rb_inv_def)
  finally show ?thesis by simp
qed

lemma length_contents: "length (rb_contents rb) = rb_count rb"
  by (simp add: rb_contents_def)

lemma inv_init: "2 \<le> c \<Longrightarrow> c \<le> INT_MAX \<Longrightarrow> length blk = nat c \<Longrightarrow> rb_inv (rb_init blk c)"
  by (simp add: rb_inv_def rb_init_def)

lemma contents_init: "rb_contents (rb_init blk c) = []"
  by (simp add: rb_contents_def rb_count_def rb_init_def)

section \<open>Runs of pushes and pops\<close>

lemma step_inv:
  assumes "run_inv s"
  shows "\<exists>s'. step s x = Some s' \<and> run_inv s'"
proof -
  obtain rb ins outs where s: "s = (rb, ins, outs)" by (cases s)
  with assms have inv: "rb_inv rb" and io: "ins = outs @ rb_contents rb" by simp_all
  show ?thesis
  proof (cases x)
    case (Push b)
    show ?thesis
    proof (cases "(head rb + 1) mod size' rb = tail rb")
      case True
      with inv io show ?thesis by (simp add: s Push push_full)
    next
      case False
      with inv io show ?thesis
        by (simp add: s Push push_not_full inv_push_state contents_push_state)
    qed
  next
    case Pop
    show ?thesis
    proof (cases "head rb = tail rb")
      case True
      with inv io show ?thesis by (simp add: s Pop pop_empty)
    next
      case False
      with inv io contents_pop_state [OF inv False] show ?thesis
        by (simp add: s Pop pop_not_empty inv_pop_state)
    qed
  qed
qed

lemma run_inv_preserved: "run_inv s \<Longrightarrow> \<exists>s'. run s ops = Some s' \<and> run_inv s'"
proof (induction ops arbitrary: s)
  case Nil
  then show ?case by simp
next
  case (Cons x xs)
  from step_inv [OF Cons.prems, of x] obtain s1 where "step s x = Some s1" "run_inv s1" by blast
  with Cons.IH [of s1] show ?case by simp
qed

lemma run_append: "run s (xs @ ys) = (case run s xs of None \<Rightarrow> None | Some s' \<Rightarrow> run s' ys)"
  by (induction xs arbitrary: s) (auto split: option.splits)

section \<open>The checksum\<close>

lemma high_bit_iff: "(c :: byte) AND 0x80 \<noteq> 0 \<longleftrightarrow> bit (unat c) 7"
proof -
  have "(c AND 0x80 \<noteq> 0) = bit c 7"
    using bit_iff_and_push_bit_not_eq_0 [of c 7] by simp
  then show ?thesis by (simp add: bit_unsigned_iff)
qed

lemma unat_shl1: "unat (push_bit 1 (c :: byte)) = take_bit 8 (push_bit 1 (unat c))"
  by (simp only: unsigned_push_bit_eq) simp

lemma take_bit_7: "take_bit 8 (7 :: nat) = 7"
  by (simp add: take_bit_eq_mod)

lemma unat_crc8_shift: "unat (crc8_shift c) = spec_shift (unat c)"
proof (cases "c AND 0x80 \<noteq> 0")
  case True
  then have "crc8_shift c = push_bit 1 c XOR 0x07" by (simp add: crc8_shift_def)
  then have "unat (crc8_shift c) = unat (push_bit 1 c) XOR unat (0x07 :: byte)"
    by (simp only: unsigned_xor_eq)
  also have "\<dots> = take_bit 8 (push_bit 1 (unat c)) XOR take_bit 8 7"
    by (simp only: unat_shl1 take_bit_7) simp
  also have "\<dots> = take_bit 8 (push_bit 1 (unat c) XOR 7)"
    by (simp only: take_bit_xor)
  finally show ?thesis using True by (simp add: spec_shift_def high_bit_iff)
next
  case False
  then have "crc8_shift c = push_bit 1 c" by (simp add: crc8_shift_def)
  then have "unat (crc8_shift c) = take_bit 8 (push_bit 1 (unat c))" by (simp only: unat_shl1)
  then show ?thesis using False by (simp add: spec_shift_def high_bit_iff)
qed

lemma crc8_bits_funpow: "j \<le> 8 \<Longrightarrow> crc8_bits j c = (crc8_shift ^^ (8 - j)) c"
proof (induction j c rule: crc8_bits.induct)
  case (1 j crc)
  show ?case
  proof (cases "j < 8")
    case True
    then have "8 - j = Suc (8 - (j + 1))" by simp
    with True 1 show ?thesis
      by (simp add: funpow_swap1 del: crc8_bits.simps add: crc8_bits.simps [of j])
  next
    case False
    with 1 show ?thesis by simp
  qed
qed

lemma unat_funpow_shift: "unat ((crc8_shift ^^ n) c) = (spec_shift ^^ n) (unat c)"
  by (induction n arbitrary: c) (simp_all add: unat_crc8_shift)

lemma unat_crc8_byte: "unat (crc8_bits 0 (crc XOR b)) = spec_byte (unat crc) (unat b)"
  by (simp add: crc8_bits_funpow unat_funpow_shift spec_byte_def unsigned_xor_eq
      del: crc8_bits.simps)

lemma crc8_bytes_foldl:
  "i \<le> len \<Longrightarrow> len \<le> length data \<Longrightarrow>
   crc8_bytes data len i crc
     = Some (foldl (\<lambda>r b. crc8_bits 0 (r XOR b)) crc (take (len - i) (drop i data)))"
proof (induction data len i crc rule: crc8_bytes.induct)
  case (1 data len i crc)
  show ?case
  proof (cases "i < len")
    case True
    with 1 have d: "take (len - i) (drop i data) = data ! i # take (len - (i + 1)) (drop (i + 1) data)"
      by (metis Cons_nth_drop_Suc Suc_diff_Suc Suc_eq_plus1 less_le_trans take_Suc_Cons diff_Suc_eq_diff_pred Suc_pred zero_less_diff)
    from True 1 show ?thesis
      by (subst crc8_bytes.simps) (simp add: d del: crc8_bytes.simps crc8_bits.simps)
  next
    case False
    with 1 show ?thesis by simp
  qed
qed

lemma unat_foldl_crc:
  "unat (foldl (\<lambda>r b. crc8_bits 0 (r XOR b)) crc data) = foldl spec_byte (unat crc) (map unat data)"
  by (induction data arbitrary: crc) (simp_all add: unat_crc8_byte del: crc8_bits.simps)

lemma crc8_foldl:
  "len \<le> length data \<Longrightarrow> crc8 data len = Some (foldl (\<lambda>r b. crc8_bits 0 (r XOR b)) 0 (take len data))"
  using crc8_bytes_foldl [of 0 len data 0] by (simp add: crc8_def del: crc8_bytes.simps)

text \<open>
  C4. \<^verbatim>\<open>crc8\<close> over a whole block is defined and computes the checksum as the
  specification words it: register 0x00 at the start; for each byte, XOR it into the
  register, then 8 times shift left by one bit, XOR with 0x07 if the high bit was set, and
  keep 8 bits; no reflection, no final XOR. The result is a function of the bytes alone,
  and the empty input gives 0x00.
\<close>

theorem crc8_is_spec_checksum:
  "(\<exists>crc. crc8 data (length data) = Some crc \<and> unat crc = spec_checksum (map unat data)) \<and>
   crc8 [] 0 = Some 0x00"
  by (simp add: crc8_foldl unat_foldl_crc spec_checksum_def del: crc8_bits.simps)

text \<open>The check value of this CRC (the ASCII digits 1 to 9) is 0xF4.\<close>

lemma crc8_check_value: "crc8 [0x31, 0x32, 0x33, 0x34, 0x35, 0x36, 0x37, 0x38, 0x39] 9 = Some 0xF4"
  by code_simp

section \<open>C strings and free slots\<close>

lemma take_strlen: "take (strlen msg) msg = c_string msg"
  by (simp add: strlen_def c_string_def takeWhile_eq_take [symmetric])

lemma strlen_le: "strlen msg \<le> length msg"
  by (simp add: strlen_def c_string_def length_takeWhile_le)

lemma crc8_c_string: "crc8 msg (strlen msg) = crc8 (c_string msg) (strlen msg)"
  by (simp add: crc8_foldl strlen_le take_strlen) (simp add: strlen_def crc8_foldl)

lemma c_string_nth: "i < strlen msg \<Longrightarrow> msg ! i = c_string msg ! i"
  by (simp add: strlen_def c_string_def takeWhile_nth)

lemma free_zero_iff: "rb_inv rb \<Longrightarrow> (head rb + 1) mod size' rb = tail rb \<longleftrightarrow> rb_free rb = 0"
  using count_less [of rb] by (auto simp: full_iff_count rb_free_def rb_inv_def)

lemma free_push_state:
  "rb_inv rb \<Longrightarrow> (head rb + 1) mod size' rb \<noteq> tail rb \<Longrightarrow> Suc (rb_free (push_state rb b)) = rb_free rb"
proof -
  assume inv: "rb_inv rb" and nf: "(head rb + 1) mod size' rb \<noteq> tail rb"
  from inv nf have "int (rb_count rb) \<noteq> size' rb - 1" by (simp add: full_iff_count)
  with count_less [OF inv] have "Suc (rb_count rb) < nat (size' rb)" by linarith
  moreover have "size' (push_state rb b) = size' rb" by (simp add: push_state_def)
  ultimately show ?thesis
    by (simp add: rb_free_def count_push_state [OF inv nf])
qed

lemma size_push_state: "size' (push_state rb b) = size' rb"
  by (simp add: push_state_def)

lemma tail_push_state: "tail (push_state rb b) = tail rb"
  by (simp add: push_state_def)

lemma size_pop_state: "size' (pop_state rb) = size' rb"
  by (simp add: pop_state_def)

lemma head_pop_state: "head (pop_state rb) = head rb"
  by (simp add: pop_state_def)

section \<open>Runs from a fresh buffer\<close>

text \<open>
  A fresh buffer is \<open>rb_init blk c\<close> with \<open>2 \<le> c\<close>, with \<open>c \<le> INT_MAX\<close> since the
  capacity is a C \<^verbatim>\<open>int\<close>, and with \<open>length blk = nat c\<close>: \<^verbatim>\<open>malloc\<close> did not fail and
  returned a block of \<open>c\<close> bytes. \<^verbatim>\<open>rb_init\<close> does not check the result of \<^verbatim>\<open>malloc\<close>.
\<close>

lemma step_size: "step (rb, ins, outs) x = Some (rb', ins', outs') \<Longrightarrow> size' rb' = size' rb"
  by (cases x)
     (auto simp: rb_push_def rb_pop_def split: option.splits bool.splits if_splits)

lemma run_size: "run (rb, ins, outs) ops = Some (rb', ins', outs') \<Longrightarrow> size' rb' = size' rb"
proof (induction ops arbitrary: rb ins outs)
  case Nil
  then show ?case by simp
next
  case (Cons x xs)
  then obtain rb1 ins1 outs1 where st: "step (rb, ins, outs) x = Some (rb1, ins1, outs1)"
    and rn: "run (rb1, ins1, outs1) xs = Some (rb', ins', outs')"
    by (auto split: option.splits)
  from Cons.IH [OF rn] step_size [OF st] show ?case by simp
qed

lemma run_pushes:
  "rb_inv rb \<Longrightarrow> length bs \<le> rb_free rb \<Longrightarrow>
   \<exists>rb'. run (rb, ins, outs) (map Push bs) = Some (rb', ins @ bs, outs) \<and> rb_inv rb' \<and>
         rb_contents rb' = rb_contents rb @ bs \<and> size' rb' = size' rb \<and> tail rb' = tail rb"
proof (induction bs arbitrary: rb ins)
  case Nil
  then show ?case by simp
next
  case (Cons b bs)
  from Cons.prems have nf: "(head rb + 1) mod size' rb \<noteq> tail rb"
    by (simp add: free_zero_iff)
  let ?rb1 = "push_state rb b"
  have inv1: "rb_inv ?rb1" using Cons.prems(1) by (rule inv_push_state)
  have "length bs \<le> rb_free ?rb1"
    using free_push_state [OF Cons.prems(1) nf, of b] Cons.prems(2) by simp
  from Cons.IH [OF inv1 this, of "ins @ [b]"] obtain rb' where
    "run (?rb1, (ins @ [b]), outs) (map Push bs) = Some (rb', (ins @ [b]) @ bs, outs)"
    "rb_inv rb'" "rb_contents rb' = rb_contents ?rb1 @ bs" "size' rb' = size' ?rb1"
    "tail rb' = tail ?rb1" by blast
  then show ?case
    using Cons.prems(1) nf
    by (simp add: push_not_full contents_push_state size_push_state tail_push_state)
qed

lemma run_pops:
  "rb_inv rb \<Longrightarrow> k \<le> rb_count rb \<Longrightarrow>
   \<exists>rb'. run (rb, ins, outs) (replicate k Pop) = Some (rb', ins, outs @ take k (rb_contents rb)) \<and>
         rb_inv rb' \<and> rb_contents rb' = drop k (rb_contents rb) \<and> size' rb' = size' rb \<and>
         head rb' = head rb"
proof (induction k arbitrary: rb outs)
  case 0
  then show ?case by simp
next
  case (Suc k)
  from Suc.prems have ne: "head rb \<noteq> tail rb"
    by (auto simp: empty_iff_count)
  let ?rb1 = "pop_state rb"
  let ?d = "buffer rb ! nat (tail rb)"
  have inv1: "rb_inv ?rb1" using Suc.prems(1) by (rule inv_pop_state)
  have c: "rb_contents rb = ?d # rb_contents ?rb1"
    using contents_pop_state [OF Suc.prems(1) ne] by simp
  have "k \<le> rb_count ?rb1"
    using count_pop_state [OF Suc.prems(1) ne] Suc.prems(2) by simp
  from Suc.IH [OF inv1 this, of "outs @ [?d]"] obtain rb' where
    "run (?rb1, ins, outs @ [?d]) (replicate k Pop)
       = Some (rb', ins, (outs @ [?d]) @ take k (rb_contents ?rb1))"
    "rb_inv rb'" "rb_contents rb' = drop k (rb_contents ?rb1)" "size' rb' = size' ?rb1"
    "head rb' = head ?rb1" by blast
  then show ?case
    using Suc.prems(1) ne
    by (simp add: pop_not_empty c size_pop_state head_pop_state)
qed

lemma empty_iff_contents: "rb_inv rb \<Longrightarrow> rb_is_empty rb \<longleftrightarrow> rb_contents rb = []"
  by (simp add: rb_is_empty_def empty_iff_count length_contents [symmetric])

lemma free_init: "rb_free (rb_init blk c) = nat c - 1"
  by (simp add: rb_free_def rb_count_def rb_init_def)

lemma run_inv_init:
  "2 \<le> c \<Longrightarrow> c \<le> INT_MAX \<Longrightarrow> length blk = nat c \<Longrightarrow> run_inv (rb_init blk c, [], [])"
  by (simp add: inv_init contents_init)

lemma run_from_init:
  assumes "2 \<le> c" "c \<le> INT_MAX" "length blk = nat c"
  shows "\<exists>rb ins outs. run (rb_init blk c, [], []) ops = Some (rb, ins, outs) \<and>
           rb_inv rb \<and> size' rb = c \<and> ins = outs @ rb_contents rb"
proof -
  from run_inv_preserved [OF run_inv_init [OF assms], of ops]
  obtain rb ins outs where r: "run (rb_init blk c, [], []) ops = Some (rb, ins, outs)"
    and i: "run_inv (rb, ins, outs)"
    by (metis prod_cases3)
  from run_size [OF r] have "size' rb = c" by (simp add: rb_init_def)
  with r i show ?thesis by simp
qed

lemmas rb_eval = rb_init_def rb_push_def rb_pop_def rb_is_full_def rb_is_empty_def c_mod_def INT_MAX_def

section \<open>Construction\<close>

text \<open>
  C1 (as amended). \<^verbatim>\<open>rb_init\<close> has no failure path and checks no capacity: for every
  capacity \<open>c\<close>, also \<open>c < 2\<close>, it returns the struct with \<open>head = tail = 0\<close> and
  \<open>size = c\<close>, which reports empty. With capacity 1 that buffer reports full as well, so
  every push is refused and every pop is refused, both leaving the struct as it is.
  Keeping \<open>c < 2\<close> away is left to the caller.
\<close>

theorem rb_init_accepts_any_capacity:
  "rb_init blk c = \<lparr>buffer = blk, head = 0, tail = 0, size' = c\<rparr> \<and>
   rb_is_empty (rb_init blk c) \<and>
   rb_is_full (rb_init blk 1) = Some True \<and>
   rb_push (rb_init blk 1) b = Some (rb_init blk 1, False) \<and>
   rb_pop (rb_init blk 1) d = Some (rb_init blk 1, d, False)"
  by (simp add: rb_init_def rb_is_empty_def rb_is_full_def rb_push_def rb_pop_def
      INT_MAX_def c_mod_def)

text \<open>
  C1 as the specification states it (construction with a capacity below 2 is rejected)
  fails at capacity 1 with a one-byte block: the call returns a struct like any other, and
  that struct reports empty and full at once.
\<close>

theorem rb_init_capacity_1_counterexample:
  "rb_init [0] 1 = \<lparr>buffer = [0], head = 0, tail = 0, size' = 1\<rparr> \<and>
   rb_is_empty (rb_init [0] 1) \<and> rb_is_full (rb_init [0] 1) = Some True"
  by (simp add: rb_init_def rb_is_empty_def rb_is_full_def INT_MAX_def c_mod_def)

section \<open>Push and pop leave a full or empty buffer alone\<close>

text \<open>
  C5. In every state in which \<^verbatim>\<open>rb_is_full\<close> reports full, \<^verbatim>\<open>rb_push\<close> returns 0 and the
  struct (block, head, tail, size) is the one it was given. On a valid buffer
  \<^verbatim>\<open>rb_is_full\<close> is defined, and if it reports not full, \<^verbatim>\<open>rb_push\<close> returns 1, the
  byte is stored at \<open>buffer[head]\<close>, and \<open>head\<close> becomes \<open>(head + 1) mod size\<close>; nothing
  else changes.
\<close>

theorem rb_push_full_or_stored:
  "(rb_is_full rb = Some True \<longrightarrow> rb_push rb b = Some (rb, False)) \<and>
   (rb_inv rb \<longrightarrow>
      (rb_is_full rb = Some True \<or> rb_is_full rb = Some False) \<and>
      (rb_is_full rb = Some False \<longrightarrow>
         rb_push rb b = Some (rb\<lparr>buffer := (buffer rb)[nat (head rb) := b],
                                   head := (head rb + 1) mod size' rb\<rparr>, True)))"
proof -
  have "rb_push rb b = Some (rb, False)" if "rb_is_full rb = Some True"
    using that by (simp add: rb_push_def)
  moreover have "rb_is_full rb = Some True \<or> rb_is_full rb = Some False" if "rb_inv rb"
    using that by (auto simp: inv_is_full)
  moreover have "rb_push rb b = Some (rb\<lparr>buffer := (buffer rb)[nat (head rb) := b],
      head := (head rb + 1) mod size' rb\<rparr>, True)"
    if "rb_inv rb" "rb_is_full rb = Some False"
    using that by (simp add: inv_is_full push_not_full push_state_def)
  ultimately show ?thesis by blast
qed

theorem rb_push_full_or_stored_witness:
  "rb_inv \<lparr>buffer = [1, 2, 3], head = 2, tail = 0, size' = 3\<rparr> \<and>
   rb_is_full \<lparr>buffer = [1, 2, 3], head = 2, tail = 0, size' = 3\<rparr> = Some True \<and>
   rb_push \<lparr>buffer = [1, 2, 3], head = 2, tail = 0, size' = 3\<rparr> 9
     = Some (\<lparr>buffer = [1, 2, 3], head = 2, tail = 0, size' = 3\<rparr>, False) \<and>
   rb_inv \<lparr>buffer = [1, 2, 3], head = 1, tail = 0, size' = 3\<rparr> \<and>
   rb_is_full \<lparr>buffer = [1, 2, 3], head = 1, tail = 0, size' = 3\<rparr> = Some False \<and>
   rb_push \<lparr>buffer = [1, 2, 3], head = 1, tail = 0, size' = 3\<rparr> 9
     = Some (\<lparr>buffer = [1, 9, 3], head = 2, tail = 0, size' = 3\<rparr>, True)"
proof -
  have i1: "rb_inv \<lparr>buffer = [1, 2, 3], head = 2, tail = 0, size' = 3\<rparr>"
    by (simp add: rb_inv_def INT_MAX_def)
  have i2: "rb_inv \<lparr>buffer = [1, 2, 3], head = 1, tail = 0, size' = 3\<rparr>"
    by (simp add: rb_inv_def INT_MAX_def)
  have f1: "rb_is_full \<lparr>buffer = [1, 2, 3], head = 2, tail = 0, size' = 3\<rparr> = Some True"
    by (simp add: rb_is_full_def INT_MAX_def c_mod_def)
  have f2: "rb_is_full \<lparr>buffer = [1, 2, 3], head = 1, tail = 0, size' = 3\<rparr> = Some False"
    by (simp add: rb_is_full_def INT_MAX_def c_mod_def)
  show ?thesis
    using rb_push_full_or_stored [of "\<lparr>buffer = [1, 2, 3], head = 2, tail = 0, size' = 3\<rparr>" 9]
      rb_push_full_or_stored [of "\<lparr>buffer = [1, 2, 3], head = 1, tail = 0, size' = 3\<rparr>" 9]
      i1 i2 f1 f2
    by simp
qed

text \<open>
  C6. In every state in which \<^verbatim>\<open>rb_is_empty\<close> reports empty, \<^verbatim>\<open>rb_pop\<close> returns 0 and
  neither the struct nor \<^verbatim>\<open>*data\<close> changes. On a valid buffer that is not empty,
  \<^verbatim>\<open>rb_pop\<close> returns 1, \<^verbatim>\<open>*data\<close> is \<open>buffer[tail]\<close>, and \<open>tail\<close> becomes
  \<open>(tail + 1) mod size\<close>; nothing else changes.
\<close>

theorem rb_pop_empty_or_read:
  "(rb_is_empty rb \<longrightarrow> rb_pop rb d = Some (rb, d, False)) \<and>
   (rb_inv rb \<and> \<not> rb_is_empty rb \<longrightarrow>
      rb_pop rb d = Some (rb\<lparr>tail := (tail rb + 1) mod size' rb\<rparr>,
                          buffer rb ! nat (tail rb), True))"
  by (auto simp: rb_is_empty_def pop_empty pop_not_empty pop_state_def)

theorem rb_pop_empty_or_read_witness:
  "rb_inv \<lparr>buffer = [1, 2, 3], head = 1, tail = 1, size' = 3\<rparr> \<and>
   rb_is_empty \<lparr>buffer = [1, 2, 3], head = 1, tail = 1, size' = 3\<rparr> \<and>
   rb_pop \<lparr>buffer = [1, 2, 3], head = 1, tail = 1, size' = 3\<rparr> 7
     = Some (\<lparr>buffer = [1, 2, 3], head = 1, tail = 1, size' = 3\<rparr>, 7, False) \<and>
   rb_inv \<lparr>buffer = [1, 2, 3], head = 1, tail = 2, size' = 3\<rparr> \<and>
   \<not> rb_is_empty \<lparr>buffer = [1, 2, 3], head = 1, tail = 2, size' = 3\<rparr> \<and>
   rb_pop \<lparr>buffer = [1, 2, 3], head = 1, tail = 2, size' = 3\<rparr> 7
     = Some (\<lparr>buffer = [1, 2, 3], head = 1, tail = 0, size' = 3\<rparr>, 3, True)"
proof -
  have i1: "rb_inv \<lparr>buffer = [1, 2, 3], head = 1, tail = 1, size' = 3\<rparr>"
    by (simp add: rb_inv_def INT_MAX_def)
  have i2: "rb_inv \<lparr>buffer = [1, 2, 3], head = 1, tail = 2, size' = 3\<rparr>"
    by (simp add: rb_inv_def INT_MAX_def)
  show ?thesis
    using rb_pop_empty_or_read [of "\<lparr>buffer = [1, 2, 3], head = 1, tail = 1, size' = 3\<rparr>" 7]
      rb_pop_empty_or_read [of "\<lparr>buffer = [1, 2, 3], head = 1, tail = 2, size' = 3\<rparr>" 7]
      i1 i2
    by (simp add: rb_is_empty_def)
qed

section \<open>First in, first out\<close>

text \<open>
  C2. Take a capacity \<open>c \<ge> 2\<close> and at most \<open>c - 1\<close> bytes. Pushed into a fresh buffer,
  every byte is accepted; then as many pops all return 1 and deliver the bytes in the
  order they were pushed, and the buffer is empty after them. It is empty after exactly
  that many pops: after any smaller number of pops it is not empty.
\<close>

theorem fifo_push_then_pop:
  assumes "2 \<le> c" "c \<le> INT_MAX" "length blk = nat c" "int (length bs) \<le> c - 1"
  shows "\<exists>rb1 rb2.
           run (rb_init blk c, [], []) (map Push bs) = Some (rb1, bs, []) \<and>
           run (rb1, [], []) (replicate (length bs) Pop) = Some (rb2, [], bs) \<and>
           rb_is_empty rb2 \<and>
           (\<forall>k<length bs. \<exists>rb. run (rb1, [], []) (replicate k Pop) = Some (rb, [], take k bs) \<and>
                                  \<not> rb_is_empty rb)"
proof -
  have inv0: "rb_inv (rb_init blk c)" using assms(1-3) by (rule inv_init)
  have "length bs \<le> rb_free (rb_init blk c)" using assms(1,4) by (simp add: free_init)
  from run_pushes [OF inv0 this, of "[]" "[]"] obtain rb1 where
    r1: "run (rb_init blk c, [], []) (map Push bs) = Some (rb1, bs, [])" and
    inv1: "rb_inv rb1" and c1: "rb_contents rb1 = bs"
    by (auto simp: contents_init)
  have n1: "rb_count rb1 = length bs" using c1 length_contents [of rb1] by simp
  from run_pops [OF inv1, of "length bs" "[]" "[]"] n1 c1 obtain rb2 where
    r2: "run (rb1, [], []) (replicate (length bs) Pop) = Some (rb2, [], bs)" and
    inv2: "rb_inv rb2" and c2: "rb_contents rb2 = []"
    by auto
  have part: "\<exists>rb. run (rb1, [], []) (replicate k Pop) = Some (rb, [], take k bs) \<and>
                   \<not> rb_is_empty rb" if "k < length bs" for k
  proof -
    from run_pops [OF inv1, of k "[]" "[]"] n1 c1 that obtain rb where
      "run (rb1, [], []) (replicate k Pop) = Some (rb, [], take k bs)"
      "rb_inv rb" "rb_contents rb = drop k bs"
      by auto
    with that show ?thesis by (auto simp: empty_iff_contents)
  qed
  from r1 r2 inv2 c2 part show ?thesis by (auto simp: empty_iff_contents)
qed

theorem fifo_push_then_pop_witness:
  "(2::int) \<le> 4 \<and> (4::int) \<le> INT_MAX \<and> length [0, 0, 0, 0 :: byte] = nat 4 \<and>
   int (length [10, 20, 30 :: byte]) \<le> 4 - 1 \<and>
   run (rb_init [0, 0, 0, 0] 4, [], []) (map Push [10, 20, 30])
     = Some (\<lparr>buffer = [10, 20, 30, 0], head = 3, tail = 0, size' = 4\<rparr>, [10, 20, 30], []) \<and>
   run (\<lparr>buffer = [10, 20, 30, 0], head = 3, tail = 0, size' = 4\<rparr>, [], []) (replicate 3 Pop)
     = Some (\<lparr>buffer = [10, 20, 30, 0], head = 3, tail = 3, size' = 4\<rparr>, [], [10, 20, 30]) \<and>
   rb_is_empty \<lparr>buffer = [10, 20, 30, 0], head = 3, tail = 3, size' = 4\<rparr>"
proof -
  have h: "(2::int) \<le> 4" "(4::int) \<le> INT_MAX" "length [0, 0, 0, 0 :: byte] = nat 4"
    "int (length [10, 20, 30 :: byte]) \<le> 4 - 1"
    by (simp_all add: INT_MAX_def)
  have p: "run (rb_init [0, 0, 0, 0] 4, [], []) (map Push [10, 20, 30])
     = Some (\<lparr>buffer = [10, 20, 30, 0], head = 3, tail = 0, size' = 4\<rparr>, [10, 20, 30], [])"
    by (simp add: rb_eval)
  have q: "run (\<lparr>buffer = [10, 20, 30, 0], head = 3, tail = 0, size' = 4\<rparr>, [], [])
      (replicate 3 Pop)
     = Some (\<lparr>buffer = [10, 20, 30, 0], head = 3, tail = 3, size' = 4\<rparr>, [], [10, 20, 30])"
    by (simp add: rb_eval numeral_3_eq_3)
  have l: "length [10, 20, 30 :: byte] = 3" by simp
  from fifo_push_then_pop [OF h] obtain rb1 rb2 where
    o1: "run (rb_init [0, 0, 0, 0] 4, [], []) (map Push [10, 20, 30]) = Some (rb1, [10, 20, 30], [])"
    and o2: "run (rb1, [], []) (replicate (length [10, 20, 30 :: byte]) Pop)
      = Some (rb2, [], [10, 20, 30])"
    and o3: "rb_is_empty rb2"
    by blast
  from o1 have rb1: "rb1 = \<lparr>buffer = [10, 20, 30, 0], head = 3, tail = 0, size' = 4\<rparr>"
    unfolding p by simp
  from o2 have rb2: "rb2 = \<lparr>buffer = [10, 20, 30, 0], head = 3, tail = 3, size' = 4\<rparr>"
    unfolding rb1 l q by simp
  from o3 have "rb_is_empty \<lparr>buffer = [10, 20, 30, 0], head = 3, tail = 3, size' = 4\<rparr>"
    unfolding rb2 .
  with h p q show ?thesis by (simp only: simp_thms)
qed

text \<open>
  C8. Take a capacity \<open>c \<ge> 2\<close> and any sequence of pushes and pops on a fresh buffer,
  however often \<open>head\<close> and \<open>tail\<close> have gone round the block. The run is defined; the
  bytes popped so far are the first of the accepted bytes, in push order; and popping what
  is left delivers the remaining accepted bytes, in push order, and empties the buffer.
  The run of the witness has capacity 3, 7 accepted pushes and 6 successful pops, so both
  indices have passed the capacity twice.
\<close>

theorem fifo_across_wrap_around:
  assumes "2 \<le> c" "c \<le> INT_MAX" "length blk = nat c"
  shows "\<exists>rb ins outs rb'.
           run (rb_init blk c, [], []) ops = Some (rb, ins, outs) \<and>
           outs = take (length outs) ins \<and>
           run (rb, ins, outs) (replicate (length ins - length outs) Pop) = Some (rb', ins, ins) \<and>
           rb_is_empty rb'"
proof -
  from run_from_init [OF assms, of ops] obtain rb ins outs where
    r: "run (rb_init blk c, [], []) ops = Some (rb, ins, outs)" and inv: "rb_inv rb" and
    io: "ins = outs @ rb_contents rb" by blast
  have n: "length ins - length outs = rb_count rb" using io length_contents [of rb] by simp
  from run_pops [OF inv, of "rb_count rb" ins outs] obtain rb' where
    "run (rb, ins, outs) (replicate (rb_count rb) Pop) = Some (rb', ins, ins)"
    "rb_inv rb'" "rb_contents rb' = []"
    using io length_contents [of rb] by auto
  with r io n show ?thesis by (auto simp: empty_iff_contents)
qed

theorem fifo_across_wrap_around_witness:
  "(2::int) \<le> 3 \<and> (3::int) \<le> INT_MAX \<and> length [0, 0, 0 :: byte] = nat 3 \<and>
   run (rb_init [0, 0, 0] 3, [], [])
     [Push 1, Push 2, Push 3, Pop, Pop, Push 4, Push 5, Pop, Pop, Pop, Push 6, Push 7, Pop,
      Push 8, Pop]
     = Some (\<lparr>buffer = [8, 6, 7], head = 1, tail = 0, size' = 3\<rparr>,
             [1, 2, 4, 5, 6, 7, 8], [1, 2, 4, 5, 6, 7]) \<and>
   run (\<lparr>buffer = [8, 6, 7], head = 1, tail = 0, size' = 3\<rparr>,
        [1, 2, 4, 5, 6, 7, 8], [1, 2, 4, 5, 6, 7]) (replicate 1 Pop)
     = Some (\<lparr>buffer = [8, 6, 7], head = 1, tail = 1, size' = 3\<rparr>,
             [1, 2, 4, 5, 6, 7, 8], [1, 2, 4, 5, 6, 7, 8])"
proof -
  have h: "(2::int) \<le> 3" "(3::int) \<le> INT_MAX" "length [0, 0, 0 :: byte] = nat 3"
    by (simp_all add: INT_MAX_def)
  have r: "run (rb_init [0, 0, 0] 3, [], [])
     [Push 1, Push 2, Push 3, Pop, Pop, Push 4, Push 5, Pop, Pop, Pop, Push 6, Push 7, Pop,
      Push 8, Pop]
     = Some (\<lparr>buffer = [8, 6, 7], head = 1, tail = 0, size' = 3\<rparr>,
             [1, 2, 4, 5, 6, 7, 8], [1, 2, 4, 5, 6, 7])"
    by (simp add: rb_eval)
  from fifo_across_wrap_around [OF h, of "[Push 1, Push 2, Push 3, Pop, Pop, Push 4, Push 5, Pop,
      Pop, Pop, Push 6, Push 7, Pop, Push 8, Pop]"] r
  obtain rb' where "run (\<lparr>buffer = [8, 6, 7], head = 1, tail = 0, size' = 3\<rparr>,
        [1, 2, 4, 5, 6, 7, 8], [1, 2, 4, 5, 6, 7]) (replicate 1 Pop)
     = Some (rb', [1, 2, 4, 5, 6, 7, 8], [1, 2, 4, 5, 6, 7, 8])"
    by auto
  moreover have "run (\<lparr>buffer = [8, 6, 7], head = 1, tail = 0, size' = 3\<rparr>,
        [1, 2, 4, 5, 6, 7, 8], [1, 2, 4, 5, 6, 7]) (replicate 1 Pop)
     = Some (\<lparr>buffer = [8, 6, 7], head = 1, tail = 1, size' = 3\<rparr>,
             [1, 2, 4, 5, 6, 7, 8], [1, 2, 4, 5, 6, 7, 8])"
    by (simp add: rb_eval)
  ultimately show ?thesis using h r by simp
qed

section \<open>Indices, full and empty\<close>

text \<open>
  C9. Take a capacity \<open>c \<ge> 2\<close> and any sequence of pushes and pops on a fresh buffer. The
  run is defined and in the state it reaches \<open>0 \<le> head < c\<close> and \<open>0 \<le> tail < c\<close>. No byte
  is stored (as many were popped as were accepted) exactly when \<open>head = tail\<close>, which is what
  \<^verbatim>\<open>rb_is_empty\<close> returns; \<open>c - 1\<close> bytes are stored exactly when
  \<open>(head + 1) mod c = tail\<close>, which is what \<^verbatim>\<open>rb_is_full\<close> returns; and never more than
  \<open>c - 1\<close> bytes are stored.
\<close>

theorem indices_in_range_one_slot_unused:
  assumes "2 \<le> c" "c \<le> INT_MAX" "length blk = nat c"
  shows "\<exists>rb ins outs.
           run (rb_init blk c, [], []) ops = Some (rb, ins, outs) \<and>
           size' rb = c \<and> 0 \<le> head rb \<and> head rb < c \<and> 0 \<le> tail rb \<and> tail rb < c \<and>
           length outs \<le> length ins \<and>
           int (length ins - length outs) \<le> c - 1 \<and>
           rb_is_empty rb = (head rb = tail rb) \<and>
           (length ins = length outs) = (head rb = tail rb) \<and>
           rb_is_full rb = Some ((head rb + 1) mod c = tail rb) \<and>
           (int (length ins - length outs) = c - 1) = ((head rb + 1) mod c = tail rb)"
proof -
  from run_from_init [OF assms, of ops] obtain rb ins outs where
    r: "run (rb_init blk c, [], []) ops = Some (rb, ins, outs)" and inv: "rb_inv rb" and
    sz: "size' rb = c" and io: "ins = outs @ rb_contents rb" by blast
  have n: "length ins - length outs = rb_count rb" and le: "length outs \<le> length ins"
    using io length_contents [of rb] by simp_all
  have rng: "0 \<le> head rb \<and> head rb < c \<and> 0 \<le> tail rb \<and> tail rb < c"
    using inv sz by (simp add: rb_inv_def)
  have bound: "int (rb_count rb) \<le> c - 1" using count_less [OF inv] sz by simp
  have e: "(rb_count rb = 0) = (head rb = tail rb)" using empty_iff_count [OF inv] by simp
  have f: "(int (rb_count rb) = c - 1) = ((head rb + 1) mod c = tail rb)"
    using full_iff_count [OF inv] sz by simp
  have fd: "rb_is_full rb = Some ((head rb + 1) mod c = tail rb)"
    using inv_is_full [OF inv] sz by simp
  have e': "(length ins = length outs) = (head rb = tail rb)"
    using e le n by linarith
  from r sz rng le bound e' f fd show ?thesis
    by (simp add: n rb_is_empty_def)
qed

theorem indices_in_range_one_slot_unused_witness:
  "(2::int) \<le> 3 \<and> (3::int) \<le> INT_MAX \<and> length [0, 0, 0 :: byte] = nat 3 \<and>
   run (rb_init [0, 0, 0] 3, [], []) [Push 1, Push 2, Push 3, Pop, Push 4]
     = Some (\<lparr>buffer = [1, 2, 4], head = 0, tail = 1, size' = 3\<rparr>, [1, 2, 4], [1]) \<and>
   rb_is_full \<lparr>buffer = [1, 2, 4], head = 0, tail = 1, size' = 3\<rparr> = Some True \<and>
   rb_is_empty \<lparr>buffer = [1, 2, 4], head = 0, tail = 1, size' = 3\<rparr> = False"
proof -
  have h: "(2::int) \<le> 3" "(3::int) \<le> INT_MAX" "length [0, 0, 0 :: byte] = nat 3"
    by (simp_all add: INT_MAX_def)
  have r: "run (rb_init [0, 0, 0] 3, [], []) [Push 1, Push 2, Push 3, Pop, Push 4]
     = Some (\<lparr>buffer = [1, 2, 4], head = 0, tail = 1, size' = 3\<rparr>, [1, 2, 4], [1])"
    by (simp add: rb_eval)
  from indices_in_range_one_slot_unused [OF h, of "[Push 1, Push 2, Push 3, Pop, Push 4]"]
  have "rb_is_full \<lparr>buffer = [1, 2, 4], head = 0, tail = 1, size' = 3\<rparr> = Some True \<and>
        rb_is_empty \<lparr>buffer = [1, 2, 4], head = 0, tail = 1, size' = 3\<rparr> = False"
    unfolding r by simp
  with h r show ?thesis by (simp only: simp_thms)
qed

text \<open>
  C10. Take a capacity \<open>c \<ge> 2\<close> and any sequence of pushes and pops on a fresh buffer. In
  the state the run reaches, \<^verbatim>\<open>rb_is_full\<close> is defined and \<^verbatim>\<open>rb_is_full\<close> and
  \<^verbatim>\<open>rb_is_empty\<close> do not both return true. With capacity 1, which \<^verbatim>\<open>rb_init\<close> accepts,
  the fresh buffer is full and empty at once.
\<close>

theorem full_and_empty_exclusive:
  assumes "2 \<le> c" "c \<le> INT_MAX" "length blk = nat c"
  shows "(\<exists>rb ins outs.
            run (rb_init blk c, [], []) ops = Some (rb, ins, outs) \<and>
            (rb_is_full rb = Some True \<or> rb_is_full rb = Some False) \<and>
            \<not> (rb_is_full rb = Some True \<and> rb_is_empty rb)) \<and>
         rb_is_full (rb_init blk1 1) = Some True \<and> rb_is_empty (rb_init blk1 1)"
proof -
  from run_from_init [OF assms, of ops] obtain rb ins outs where
    r: "run (rb_init blk c, [], []) ops = Some (rb, ins, outs)" and inv: "rb_inv rb" by blast
  have "\<not> ((head rb + 1) mod size' rb = tail rb \<and> head rb = tail rb)"
    using inv by (auto simp: rb_inv_def succ_mod_cases split: if_splits)
  with r inv_is_full [OF inv] have
    "\<exists>rb ins outs.
       run (rb_init blk c, [], []) ops = Some (rb, ins, outs) \<and>
       (rb_is_full rb = Some True \<or> rb_is_full rb = Some False) \<and>
       \<not> (rb_is_full rb = Some True \<and> rb_is_empty rb)"
    by (auto simp: rb_is_empty_def)
  moreover have "rb_is_full (rb_init blk1 1) = Some True \<and> rb_is_empty (rb_init blk1 1)"
    by (simp add: rb_init_def rb_is_empty_def rb_is_full_def INT_MAX_def c_mod_def)
  ultimately show ?thesis by blast
qed

theorem full_and_empty_exclusive_witness:
  "(2::int) \<le> 2 \<and> (2::int) \<le> INT_MAX \<and> length [0, 0 :: byte] = nat 2 \<and>
   run (rb_init [0, 0] 2, [], []) [Push 1, Push 2, Pop, Pop, Push 3]
     = Some (\<lparr>buffer = [1, 3], head = 0, tail = 1, size' = 2\<rparr>, [1, 3], [1]) \<and>
   rb_is_full \<lparr>buffer = [1, 3], head = 0, tail = 1, size' = 2\<rparr> = Some True \<and>
   \<not> rb_is_empty \<lparr>buffer = [1, 3], head = 0, tail = 1, size' = 2\<rparr>"
proof -
  have h: "(2::int) \<le> 2" "(2::int) \<le> INT_MAX" "length [0, 0 :: byte] = nat 2"
    by (simp_all add: INT_MAX_def)
  have r: "run (rb_init [0, 0] 2, [], []) [Push 1, Push 2, Pop, Pop, Push 3]
     = Some (\<lparr>buffer = [1, 3], head = 0, tail = 1, size' = 2\<rparr>, [1, 3], [1])"
    by (simp add: rb_eval)
  have f: "rb_is_full \<lparr>buffer = [1, 3], head = 0, tail = 1, size' = 2\<rparr> = Some True"
    by (simp add: rb_eval)
  from full_and_empty_exclusive [OF h, of "[Push 1, Push 2, Pop, Pop, Push 3]"]
  have "\<not> (rb_is_full \<lparr>buffer = [1, 3], head = 0, tail = 1, size' = 2\<rparr> = Some True \<and>
           rb_is_empty \<lparr>buffer = [1, 3], head = 0, tail = 1, size' = 2\<rparr>)"
    unfolding r by simp
  with f have "\<not> rb_is_empty \<lparr>buffer = [1, 3], head = 0, tail = 1, size' = 2\<rparr>" by simp
  with h r f show ?thesis by (simp only: simp_thms)
qed

section \<open>The message loggers\<close>

lemma log_crc_loop:
  "rb_inv rb \<Longrightarrow>
   \<exists>rb'. rb_log_message_crc_loop rb msg i = Some rb' \<and> rb_inv rb' \<and> size' rb' = size' rb \<and>
         tail rb' = tail rb \<and>
         rb_contents rb' = rb_contents rb @ take (rb_free rb) (drop i (c_string msg))"
proof (induction rb msg i rule: rb_log_message_crc_loop.induct)
  case (1 rb msg i)
  show ?case
  proof (cases "i < strlen msg")
    case False
    then show ?thesis using "1.prems" by (simp add: strlen_def)
  next
    case True
    then have d: "drop i (c_string msg) = msg ! i # drop (i + 1) (c_string msg)"
      by (simp add: c_string_nth strlen_def Cons_nth_drop_Suc)
    show ?thesis
    proof (cases "(head rb + 1) mod size' rb = tail rb")
      case full: True
      then have p: "rb_push rb (msg ! i) = Some (rb, False)"
        using "1.prems" by (simp add: push_full)
      have z: "rb_free rb = 0" using full "1.prems" by (simp add: free_zero_iff)
      from "1.IH" [OF True p refl "1.prems"] obtain rb' where
        "rb_log_message_crc_loop rb msg (i + 1) = Some rb'" "rb_inv rb'" "size' rb' = size' rb"
        "tail rb' = tail rb" "rb_contents rb' = rb_contents rb"
        by (auto simp: z)
      then show ?thesis
        using True p z by (subst rb_log_message_crc_loop.simps) simp
    next
      case nf: False
      let ?rb1 = "push_state rb (msg ! i)"
      have p: "rb_push rb (msg ! i) = Some (?rb1, True)"
        using "1.prems" nf by (simp add: push_not_full)
      have inv1: "rb_inv ?rb1" using "1.prems" by (rule inv_push_state)
      have fr: "rb_free rb = Suc (rb_free ?rb1)"
        using free_push_state [OF "1.prems" nf, of "msg ! i"] by simp
      from "1.IH" [OF True p refl inv1] obtain rb' where
        "rb_log_message_crc_loop ?rb1 msg (i + 1) = Some rb'" "rb_inv rb'"
        "size' rb' = size' ?rb1" "tail rb' = tail ?rb1"
        "rb_contents rb' = rb_contents ?rb1 @ take (rb_free ?rb1) (drop (i + 1) (c_string msg))"
        by blast
      then show ?thesis
        using True p "1.prems" nf
        by (subst rb_log_message_crc_loop.simps)
           (simp add: contents_push_state size_push_state tail_push_state d fr)
    qed
  qed
qed

lemma log_loop:
  "rb_inv rb \<Longrightarrow> i \<le> strlen msg \<Longrightarrow>
   \<exists>rb'. rb_log_message_loop rb msg i = Some (rb', min (strlen msg) (i + rb_free rb)) \<and>
         rb_inv rb' \<and> size' rb' = size' rb \<and> tail rb' = tail rb \<and>
         rb_contents rb' = rb_contents rb @ take (rb_free rb) (drop i (c_string msg))"
proof (induction rb msg i rule: rb_log_message_loop.induct)
  case (1 rb msg i)
  show ?case
  proof (cases "i < strlen msg")
    case False
    then show ?thesis using "1.prems" by (simp add: strlen_def)
  next
    case True
    then have d: "drop i (c_string msg) = msg ! i # drop (i + 1) (c_string msg)"
      by (simp add: c_string_nth strlen_def Cons_nth_drop_Suc)
    show ?thesis
    proof (cases "(head rb + 1) mod size' rb = tail rb")
      case full: True
      then have p: "rb_push rb (msg ! i) = Some (rb, False)"
        using "1.prems" by (simp add: push_full)
      have z: "rb_free rb = 0" using full "1.prems" by (simp add: free_zero_iff)
      show ?thesis
        using True p z "1.prems" by (subst rb_log_message_loop.simps) simp
    next
      case nf: False
      let ?rb1 = "push_state rb (msg ! i)"
      have p: "rb_push rb (msg ! i) = Some (?rb1, True)"
        using "1.prems" nf by (simp add: push_not_full)
      have inv1: "rb_inv ?rb1" using "1.prems"(1) by (rule inv_push_state)
      have fr: "rb_free rb = Suc (rb_free ?rb1)"
        using free_push_state [OF "1.prems"(1) nf, of "msg ! i"] by simp
      have "i + 1 \<le> strlen msg" using True by simp
      from "1.IH" [OF True p refl _ inv1 this] obtain rb' where
        "rb_log_message_loop ?rb1 msg (i + 1)
           = Some (rb', min (strlen msg) (i + 1 + rb_free ?rb1))" "rb_inv rb'"
        "size' rb' = size' ?rb1" "tail rb' = tail ?rb1"
        "rb_contents rb' = rb_contents ?rb1 @ take (rb_free ?rb1) (drop (i + 1) (c_string msg))"
        by auto
      then show ?thesis
        using True p "1.prems" nf
        by (subst rb_log_message_loop.simps)
           (simp add: contents_push_state size_push_state tail_push_state d fr)
    qed
  qed
qed

lemma full_iff_free: "rb_inv rb \<Longrightarrow> rb_is_full rb = Some (rb_free rb = 0)"
  by (simp add: inv_is_full free_zero_iff)

lemma free_plus_count: "rb_inv rb \<Longrightarrow> rb_free rb + rb_count rb = nat (size' rb) - 1"
  using count_less [of rb] by (simp add: rb_free_def)

text \<open>
  C7. On a valid buffer \<^verbatim>\<open>rb_log_message\<close> is defined and pushes the bytes of the message
  one at a time until a push is refused: the loop is left with its counter at the number
  of bytes stored, the smaller of the length of the message and the number of free slots.
  The buffer then holds what it held before followed by that many leading bytes of the
  message and nothing else (no checksum); the other bytes are dropped. It reports full
  exactly when the message had at least as many bytes as there were free slots.
  The witness is capacity 4 and the message \<open>abcdef\<close>: \<open>a\<close>, \<open>b\<close>, \<open>c\<close> are
  stored, the loop is left at counter 3, and the buffer reports full.
\<close>

theorem rb_log_message_truncates:
  assumes "rb_inv rb"
  shows "\<exists>rb'. rb_log_message_loop rb msg 0 = Some (rb', min (strlen msg) (rb_free rb)) \<and>
              rb_log_message rb msg = Some rb' \<and>
              size' rb' = size' rb \<and> tail rb' = tail rb \<and>
              rb_contents rb' = rb_contents rb @ take (rb_free rb) (c_string msg) \<and>
              rb_is_full rb' = Some (rb_free rb \<le> strlen msg)"
proof -
  from log_loop [OF assms, of 0 msg] obtain rb' where
    l: "rb_log_message_loop rb msg 0 = Some (rb', min (strlen msg) (rb_free rb))" and
    inv': "rb_inv rb'" and sz: "size' rb' = size' rb" and tl: "tail rb' = tail rb" and
    c: "rb_contents rb' = rb_contents rb @ take (rb_free rb) (c_string msg)"
    by auto
  have "rb_count rb' = rb_count rb + min (strlen msg) (rb_free rb)"
    using c length_contents [of rb'] length_contents [of rb] by (simp add: strlen_def)
  with free_plus_count [OF inv'] free_plus_count [OF assms] sz
  have "(rb_free rb' = 0) = (rb_free rb \<le> strlen msg)" by auto
  then have "rb_is_full rb' = Some (rb_free rb \<le> strlen msg)"
    using inv' by (simp add: full_iff_free)
  with l sz tl c show ?thesis by (simp add: rb_log_message_def)
qed

theorem rb_log_message_truncates_witness:
  "rb_inv (rb_init [0, 0, 0, 0] 4) \<and>
   rb_log_message_loop (rb_init [0, 0, 0, 0] 4) (map of_char ''abcdef'') 0
     = Some (\<lparr>buffer = map of_char ''abc'' @ [0], head = 3, tail = 0, size' = 4\<rparr>, 3) \<and>
   rb_log_message (rb_init [0, 0, 0, 0] 4) (map of_char ''abcdef'')
     = Some \<lparr>buffer = map of_char ''abc'' @ [0], head = 3, tail = 0, size' = 4\<rparr> \<and>
   rb_contents \<lparr>buffer = map of_char ''abc'' @ [0], head = 3, tail = 0, size' = 4\<rparr>
     = map of_char ''abc'' \<and>
   rb_is_full \<lparr>buffer = map of_char ''abc'' @ [0], head = 3, tail = 0, size' = 4\<rparr> = Some True"
proof -
  let ?msg = "map of_char ''abcdef'' :: byte list"
  let ?rb = "\<lparr>buffer = map of_char ''abc'' @ [0], head = 3, tail = 0, size' = 4\<rparr>"
  have i: "rb_inv (rb_init [0, 0, 0, 0] 4)"
    by (simp add: rb_inv_def rb_init_def INT_MAX_def)
  have n: "strlen ?msg = 6" by (simp add: strlen_def c_string_def)
  have cs: "c_string ?msg = ?msg" by (simp add: c_string_def)
  have f: "rb_free (rb_init [0, 0, 0, 0] 4) = 3" by (simp add: free_init)
  have c0: "rb_contents (rb_init [0, 0, 0, 0] 4) = []" by (rule contents_init)
  have e: "rb_log_message_loop (rb_init [0, 0, 0, 0] 4) ?msg 0 = Some (?rb, 3)"
    by (simp add: rb_eval strlen_def c_string_def)
  from rb_log_message_truncates [OF i, of ?msg] obtain rb' where
    o1: "rb_log_message_loop (rb_init [0, 0, 0, 0] 4) ?msg 0
           = Some (rb', min (strlen ?msg) (rb_free (rb_init [0, 0, 0, 0] 4)))" and
    o2: "rb_log_message (rb_init [0, 0, 0, 0] 4) ?msg = Some rb'" and
    o3: "rb_contents rb' = rb_contents (rb_init [0, 0, 0, 0] 4)
           @ take (rb_free (rb_init [0, 0, 0, 0] 4)) (c_string ?msg)" and
    o4: "rb_is_full rb' = Some (rb_free (rb_init [0, 0, 0, 0] 4) \<le> strlen ?msg)"
    by blast
  from o1 have rb': "rb' = ?rb" unfolding e by simp
  have r2: "rb_log_message (rb_init [0, 0, 0, 0] 4) ?msg = Some ?rb"
    using o2 unfolding rb' .
  have r3: "rb_contents ?rb = map of_char ''abc''"
    using o3 unfolding rb' f c0 cs by simp
  have r4: "rb_is_full ?rb = Some True"
    using o4 unfolding rb' f n by simp
  from i e r2 r3 r4 show ?thesis by (simp only: simp_thms)
qed

text \<open>
  C3. Take a capacity \<open>c \<ge> 2\<close> and a message shorter than \<open>c - 1\<close>. On a fresh buffer
  \<^verbatim>\<open>rb_log_message_crc\<close> is defined and leaves \<open>strlen msg + 1\<close> bytes resident: the
  bytes of the message and then a tag. As many pops all succeed and deliver these bytes in
  that order, the checksum recomputed over the message bytes delivered is the tag delivered
  last, and the buffer is empty afterwards.
  The witness is capacity 8 and the message \<open>abc\<close>: 4 bytes are resident, \<open>a\<close>,
  \<open>b\<close>, \<open>c\<close> and the checksum 0x5F of \<open>abc\<close>; 4 pops deliver them in that order
  and leave the buffer empty.
\<close>

theorem crc_round_trip:
  assumes "2 \<le> c" "c \<le> INT_MAX" "length blk = nat c" "int (strlen msg) < c - 1"
  shows "\<exists>rb1 rb2 tag.
           rb_log_message_crc (rb_init blk c) msg = Some rb1 \<and>
           rb_count rb1 = strlen msg + 1 \<and>
           rb_contents rb1 = c_string msg @ [tag] \<and>
           run (rb1, [], []) (replicate (strlen msg + 1) Pop) = Some (rb2, [], c_string msg @ [tag]) \<and>
           crc8 (c_string msg) (strlen msg) = Some tag \<and>
           rb_is_empty rb2"
proof -
  have inv0: "rb_inv (rb_init blk c)" using assms(1-3) by (rule inv_init)
  have f0: "rb_free (rb_init blk c) = nat c - 1" by (rule free_init)
  obtain tag where t: "crc8 msg (strlen msg) = Some tag"
    by (simp add: crc8_foldl strlen_le)
  then have t': "crc8 (c_string msg) (strlen msg) = Some tag" by (simp add: crc8_c_string)
  from log_crc_loop [OF inv0, of msg 0] obtain rb' where
    l: "rb_log_message_crc_loop (rb_init blk c) msg 0 = Some rb'" and inv': "rb_inv rb'" and
    sz0: "size' rb' = size' (rb_init blk c)" and
    c0: "rb_contents rb' = rb_contents (rb_init blk c)
           @ take (rb_free (rb_init blk c)) (drop 0 (c_string msg))"
    by blast
  have sz: "size' rb' = c" using sz0 by (simp add: rb_init_def)
  have "length (c_string msg) \<le> nat c - 1" using assms(4) by (simp add: strlen_def)
  then have c': "rb_contents rb' = c_string msg"
    unfolding c0 f0 contents_init by simp
  have "rb_count rb' = strlen msg" using c' length_contents [of rb'] by (simp add: strlen_def)
  with free_plus_count [OF inv'] sz assms(4) have "rb_free rb' \<noteq> 0" by auto
  then have nf: "(head rb' + 1) mod size' rb' \<noteq> tail rb'" using inv' by (simp add: free_zero_iff)
  let ?rb1 = "push_state rb' tag"
  have p: "rb_push rb' tag = Some (?rb1, True)" using inv' nf by (rule push_not_full)
  have r1: "rb_log_message_crc (rb_init blk c) msg = Some ?rb1"
    unfolding rb_log_message_crc_def t l by (simp add: p)
  have inv1: "rb_inv ?rb1" using inv' by (rule inv_push_state)
  have c1: "rb_contents ?rb1 = c_string msg @ [tag]"
    using contents_push_state [OF inv' nf, of tag] c' by simp
  have n1: "rb_count ?rb1 = strlen msg + 1"
    using c1 length_contents [of ?rb1] by (simp add: strlen_def)
  from run_pops [OF inv1, of "strlen msg + 1" "[]" "[]"] obtain rb2 where
    "run (?rb1, [], []) (replicate (strlen msg + 1) Pop) = Some (rb2, [], c_string msg @ [tag])"
    "rb_inv rb2" "rb_contents rb2 = []"
    using n1 c1 by (auto simp: strlen_def)
  with r1 n1 c1 t' show ?thesis by (auto simp: empty_iff_contents)
qed

theorem crc_round_trip_witness:
  "(2::int) \<le> 8 \<and> (8::int) \<le> INT_MAX \<and> length [0, 0, 0, 0, 0, 0, 0, 0 :: byte] = nat 8 \<and>
   int (strlen (map of_char ''abc'')) < 8 - 1 \<and>
   crc8 (map of_char ''abc'') 3 = Some 0x5F \<and>
   rb_log_message_crc (rb_init [0, 0, 0, 0, 0, 0, 0, 0] 8) (map of_char ''abc'')
     = Some \<lparr>buffer = map of_char ''abc'' @ [0x5F, 0, 0, 0, 0], head = 4, tail = 0, size' = 8\<rparr> \<and>
   rb_count \<lparr>buffer = map of_char ''abc'' @ [0x5F, 0, 0, 0, 0], head = 4, tail = 0, size' = 8\<rparr> = 4 \<and>
   rb_contents \<lparr>buffer = map of_char ''abc'' @ [0x5F, 0, 0, 0, 0], head = 4, tail = 0, size' = 8\<rparr>
     = map of_char ''abc'' @ [0x5F] \<and>
   run (\<lparr>buffer = map of_char ''abc'' @ [0x5F, 0, 0, 0, 0], head = 4, tail = 0, size' = 8\<rparr>, [], [])
       (replicate 4 Pop)
     = Some (\<lparr>buffer = map of_char ''abc'' @ [0x5F, 0, 0, 0, 0], head = 4, tail = 4, size' = 8\<rparr>,
             [], map of_char ''abc'' @ [0x5F]) \<and>
   rb_is_empty \<lparr>buffer = map of_char ''abc'' @ [0x5F, 0, 0, 0, 0], head = 4, tail = 4, size' = 8\<rparr>"
proof -
  let ?msg = "map of_char ''abc'' :: byte list"
  let ?blk = "[0, 0, 0, 0, 0, 0, 0, 0] :: byte list"
  let ?rb1 = "\<lparr>buffer = ?msg @ [0x5F, 0, 0, 0, 0], head = 4, tail = 0, size' = 8\<rparr>"
  let ?rb2 = "\<lparr>buffer = ?msg @ [0x5F, 0, 0, 0, 0], head = 4, tail = 4, size' = 8\<rparr>"
  have n: "strlen ?msg = 3" by (simp add: strlen_def c_string_def)
  have cs: "c_string ?msg = ?msg" by (simp add: c_string_def)
  have h: "(2::int) \<le> 8" "(8::int) \<le> INT_MAX" "length ?blk = nat 8" "int (strlen ?msg) < 8 - 1"
    by (simp_all add: INT_MAX_def strlen_def c_string_def)
  have t: "crc8 ?msg 3 = Some 0x5F" by code_simp
  have e: "rb_log_message_crc (rb_init ?blk 8) ?msg = Some ?rb1"
    unfolding rb_log_message_crc_def n t by (simp add: rb_eval strlen_def c_string_def)
  have q: "run (?rb1, [], []) (replicate 4 Pop) = Some (?rb2, [], ?msg @ [0x5F])"
    by (simp add: rb_eval eval_nat_numeral)
  from crc_round_trip [OF h] obtain rb1 rb2 tag where
    o1: "rb_log_message_crc (rb_init ?blk 8) ?msg = Some rb1" and
    o2: "rb_count rb1 = strlen ?msg + 1" and
    o3: "rb_contents rb1 = c_string ?msg @ [tag]" and
    o4: "run (rb1, [], []) (replicate (strlen ?msg + 1) Pop) = Some (rb2, [], c_string ?msg @ [tag])" and
    o5: "crc8 (c_string ?msg) (strlen ?msg) = Some tag" and
    o6: "rb_is_empty rb2"
    by blast
  from o1 have rb1: "rb1 = ?rb1" unfolding e by simp
  from o5 have tag: "tag = 0x5F" unfolding cs n t by simp
  have r2: "rb_count ?rb1 = 4" using o2 unfolding rb1 n by simp
  have r3: "rb_contents ?rb1 = ?msg @ [0x5F]" using o3 unfolding rb1 cs tag .
  have "run (?rb1, [], []) (replicate 4 Pop) = Some (rb2, [], ?msg @ [0x5F])"
    using o4 unfolding rb1 cs tag n by simp
  then have rb2: "rb2 = ?rb2" unfolding q by simp
  have r6: "rb_is_empty ?rb2" using o6 unfolding rb2 .
  from h t e r2 r3 q r6 show ?thesis by (simp only: simp_thms)
qed

end
